theory Spec2Isabelle
  imports Main "HOL-Library.Word"
begin

section \<open>util.SafeSplit: the command tokenizer\<close>

text \<open>
  Go strings are byte sequences; they are modelled as \<open>string\<close> (a list of
  \<open>char\<close>, one per byte). The double quote is \<open>CHR 0x22\<close>, the single
  quote \<open>CHR 0x27\<close>.
\<close>

text \<open>
  \<^verbatim>\<open>strings.Split(s, sep)\<close> for a one-byte separator: the pieces of \<open>s\<close> between
  the occurrences of the separator, in order. The result always has one piece more than
  there are separators; the empty string gives one empty piece.
\<close>

fun Split :: "string \<Rightarrow> char \<Rightarrow> string list" where
  "Split [] sep = [[]]"
| "Split (c # cs) sep =
     (if c = sep then [] # Split cs sep
      else (case Split cs sep of
              [] \<Rightarrow> [[c]]
            | t # ts \<Rightarrow> (c # t) # ts))"

text \<open>\<^verbatim>\<open>strings.HasPrefix\<close>, \<^verbatim>\<open>strings.TrimPrefix\<close>, \<^verbatim>\<open>strings.HasSuffix\<close> and
  \<^verbatim>\<open>strings.TrimSuffix\<close>.\<close>

definition HasPrefix :: "string \<Rightarrow> string \<Rightarrow> bool" where
  "HasPrefix s p = (take (length p) s = p)"

definition TrimPrefix :: "string \<Rightarrow> string \<Rightarrow> string" where
  "TrimPrefix s p = (if HasPrefix s p then drop (length p) s else s)"

definition HasSuffix :: "string \<Rightarrow> string \<Rightarrow> bool" where
  "HasSuffix s p = (length p \<le> length s \<and> drop (length s - length p) s = p)"

definition TrimSuffix :: "string \<Rightarrow> string \<Rightarrow> string" where
  "TrimSuffix s p = (if HasSuffix s p then take (length s - length p) s else s)"

text \<open>The three local variables of \<^verbatim>\<open>SafeSplit\<close> that the loop updates.\<close>

record split_state =
  result :: "string list"
  inquote :: string
  block :: string

definition split_init :: split_state where
  "split_init = \<lparr>result = [], inquote = [], block = []\<rparr>"

text \<open>
  One iteration of \<^verbatim>\<open>for _, i := range split\<close>. The read \<^verbatim>\<open>i[0]\<close> happens only
  after \<^verbatim>\<open>HasPrefix\<close> has found a quote character at the head of \<open>i\<close>, so \<open>i\<close>
  is not empty there and \<^verbatim>\<open>string(i[0])\<close> is that one character.
\<close>

definition split_step :: "string \<Rightarrow> split_state \<Rightarrow> split_state" where
  "split_step i st =
     (if inquote st = [] then
        (if HasPrefix i [CHR 0x27] \<or> HasPrefix i [CHR 0x22] then
           st\<lparr>inquote := [hd i], block := TrimPrefix i [hd i] @ '' ''\<rparr>
         else
           st\<lparr>result := result st @ [i]\<rparr>)
      else
        (if \<not> HasSuffix i (inquote st) then
           st\<lparr>block := block st @ i @ '' ''\<rparr>
         else
           st\<lparr>block := [], inquote := [],
              result := result st @ [block st @ TrimSuffix i (inquote st)]\<rparr>))"

text \<open>The loop over a list of tokens, from a given state.\<close>

definition split_loop :: "string list \<Rightarrow> split_state \<Rightarrow> split_state" where
  "split_loop toks st = fold split_step toks st"

definition SafeSplit :: "string \<Rightarrow> string list" where
  "SafeSplit s = result (split_loop (Split s CHR '' '') split_init)"

section \<open>util.VectorClock: the version vector\<close>

text \<open>
  \<^verbatim>\<open>Counter\<close> is a Go \<^verbatim>\<open>int\<close>: 64 bits on the usual targets, two's complement, and
  \<^verbatim>\<open>Counter++\<close> wraps around silently. It is a \<open>64 word\<close>; the comparisons
  \<^verbatim>\<open><\<close> and \<^verbatim>\<open>>\<close> of the source are the signed ones (\<open><s\<close>, that is \<open><\<close> on
  \<open>sint\<close>). \<^verbatim>\<open>Updated\<close> is a \<^verbatim>\<open>time.Time\<close>, here an integer number of
  nanoseconds.
\<close>

record ClockEntry =
  NodeID :: string
  Counter :: "64 word"
  Updated :: int

text \<open>
  \<^verbatim>\<open>Entries map[string]*ClockEntry\<close>. The model is by value: it covers the clocks
  whose map is allocated and whose entries are separate, non-nil cells, which is what
  \<^verbatim>\<open>NewVectorClock\<close> and \<^verbatim>\<open>Update\<close> build. A clock in the theorems below is a
  snapshot of such a value. The clock whose map is nil is \<open>nil_map\<close> of
  \<open>go_entries\<close> below.
\<close>

record VectorClock =
  Entries :: "string \<rightharpoonup> ClockEntry"

definition NewVectorClock :: VectorClock where
  "NewVectorClock = \<lparr>Entries = Map.empty\<rparr>"

text \<open>
  \<^verbatim>\<open>func (vc *VectorClock) Update(nodeID string)\<close>. The method mutates the clock in
  place and returns nothing; the model returns the clock after the call. \<open>now\<close> is
  what \<^verbatim>\<open>time.Now()\<close> reads during the call.
\<close>

definition Update :: "VectorClock \<Rightarrow> string \<Rightarrow> int \<Rightarrow> VectorClock" where
  "Update vc nodeID now =
     (case Entries vc nodeID of
        Some entry \<Rightarrow>
          vc\<lparr>Entries := (Entries vc)(nodeID \<mapsto> entry\<lparr>Counter := Counter entry + 1, Updated := now\<rparr>)\<rparr>
      | None \<Rightarrow>
          vc\<lparr>Entries := (Entries vc)(nodeID \<mapsto> \<lparr>NodeID = nodeID, Counter = 1, Updated = now\<rparr>)\<rparr>)"




text \<open>A sequence of \<^verbatim>\<open>Update\<close> calls on one clock, each with its node and its time.\<close>

fun Updates :: "VectorClock \<Rightarrow> (string \<times> int) list \<Rightarrow> VectorClock" where
  "Updates vc [] = vc"
| "Updates vc ((nodeID, now) # calls) = Updates (Update vc nodeID now) calls"

text \<open>
  Go's \<^verbatim>\<open>range\<close> over a map visits every key once, in an order the language leaves
  open and that changes from run to run. The order is therefore an argument of the
  model: \<open>range_entries m ps\<close> says that \<open>ps\<close> is one order in which
  \<^verbatim>\<open>for k, v := range m\<close> may yield the entries of \<open>m\<close>, and \<open>range_keys m ks\<close>
  the same for \<^verbatim>\<open>for k := range m\<close>.
\<close>

definition range_entries :: "('k \<rightharpoonup> 'v) \<Rightarrow> ('k \<times> 'v) list \<Rightarrow> bool" where
  "range_entries m ps = (distinct (map fst ps) \<and> map_of ps = m)"

definition range_keys :: "('k \<rightharpoonup> 'v) \<Rightarrow> 'k list \<Rightarrow> bool" where
  "range_keys m ks = (distinct ks \<and> set ks = dom m)"

text \<open>
  The body of the first loop of \<^verbatim>\<open>Compare\<close>,
  \<^verbatim>\<open>for nodeID, otherEntry := range other.Entries\<close>, on the pair of flags
  \<open>(isNewer, isOlder)\<close>.
\<close>

definition compare_other_step ::
  "VectorClock \<Rightarrow> string \<times> ClockEntry \<Rightarrow> bool \<times> bool \<Rightarrow> bool \<times> bool" where
  "compare_other_step vc = (\<lambda>(nodeID, otherEntry) (isNewer, isOlder).
     case Entries vc nodeID of
       Some thisEntry \<Rightarrow>
         if Counter thisEntry <s Counter otherEntry then (isNewer, True)
         else if Counter otherEntry <s Counter thisEntry then (True, isOlder)
         else (isNewer, isOlder)
     | None \<Rightarrow> (isNewer, True))"

text \<open>The body of the second loop, \<^verbatim>\<open>for nodeID := range vc.Entries\<close>.\<close>

definition compare_this_step ::
  "VectorClock \<Rightarrow> string \<Rightarrow> bool \<times> bool \<Rightarrow> bool \<times> bool" where
  "compare_this_step other nodeID = (\<lambda>(isNewer, isOlder).
     if Entries other nodeID = None then (True, isOlder) else (isNewer, isOlder))"

text \<open>
  \<^verbatim>\<open>func (vc *VectorClock) Compare(other *VectorClock) string\<close>, with the order in
  which the first loop visits \<^verbatim>\<open>other.Entries\<close> and the order in which the second
  visits \<^verbatim>\<open>vc.Entries\<close>.
\<close>

definition Compare ::
  "VectorClock \<Rightarrow> VectorClock \<Rightarrow> (string \<times> ClockEntry) list \<Rightarrow> string list \<Rightarrow> string" where
  "Compare vc other order_other order_vc =
     (let flags = fold (compare_other_step vc) order_other (False, False);
          (isNewer, isOlder) = fold (compare_this_step other) order_vc flags
      in if isNewer \<and> isOlder then ''CONCURRENT''
         else if isNewer then ''NEWER''
         else if isOlder then ''OLDER''
         else ''EQUAL'')"

subsection \<open>The orders of the specification\<close>

text \<open>
  The specification orders two vectors by their counters, a node that a vector does not
  hold counting as counter 0. These definitions follow its words; they are what
  \<open>Compare\<close> is measured against.
\<close>

definition counter_of :: "VectorClock \<Rightarrow> string \<Rightarrow> int" where
  "counter_of vc n = (case Entries vc n of None \<Rightarrow> 0 | Some e \<Rightarrow> sint (Counter e))"

definition nodes_of :: "VectorClock \<Rightarrow> VectorClock \<Rightarrow> string set" where
  "nodes_of a b = dom (Entries a) \<union> dom (Entries b)"

definition spec_EQUAL :: "VectorClock \<Rightarrow> VectorClock \<Rightarrow> bool" where
  "spec_EQUAL a b = (\<forall>n \<in> nodes_of a b. counter_of a n = counter_of b n)"

definition spec_NEWER :: "VectorClock \<Rightarrow> VectorClock \<Rightarrow> bool" where
  "spec_NEWER a b =
     ((\<forall>n \<in> nodes_of a b. counter_of b n \<le> counter_of a n) \<and>
      (\<exists>n \<in> nodes_of a b. counter_of b n < counter_of a n))"

definition spec_OLDER :: "VectorClock \<Rightarrow> VectorClock \<Rightarrow> bool" where
  "spec_OLDER a b = spec_NEWER b a"

definition spec_CONCURRENT :: "VectorClock \<Rightarrow> VectorClock \<Rightarrow> bool" where
  "spec_CONCURRENT a b = (\<not> spec_EQUAL a b \<and> \<not> spec_NEWER a b \<and> \<not> spec_OLDER a b)"

text \<open>
  What the two loops of \<open>Compare\<close> leave in \<open>isNewer\<close> and \<open>isOlder\<close>, whatever
  the order of the visits (lemma \<open>Compare_flags\<close>).
\<close>

definition newer_flag :: "VectorClock \<Rightarrow> VectorClock \<Rightarrow> bool" where
  "newer_flag vc other =
     ((\<exists>n e t. Entries other n = Some e \<and> Entries vc n = Some t \<and> Counter e <s Counter t) \<or>
      (\<exists>n t. Entries vc n = Some t \<and> Entries other n = None))"

definition older_flag :: "VectorClock \<Rightarrow> VectorClock \<Rightarrow> bool" where
  "older_flag vc other =
     ((\<exists>n e t. Entries other n = Some e \<and> Entries vc n = Some t \<and> Counter t <s Counter e) \<or>
      (\<exists>n e. Entries other n = Some e \<and> Entries vc n = None))"

section \<open>The client of the key-value store\<close>

text \<open>
  The consistency levels and the names of the service methods. The constant \<^verbatim>\<open>ALL\<close>
  is \<open>ALL_level\<close> here, \<open>ALL\<close> being a binder of HOL.
\<close>

definition ONE :: string where
  "ONE = ''ONE''"

definition QUORUM :: string where
  "QUORUM = ''QUORUM''"

definition ALL_level :: string where
  "ALL_level = ''ALL''"

definition GetOp :: string where
  "GetOp = ''SwimRing.Get''"

definition PutOp :: string where
  "PutOp = ''SwimRing.Put''"

definition DeleteOp :: string where
  "DeleteOp = ''SwimRing.Delete''"

definition StatOp :: string where
  "StatOp = ''SwimRing.Stat''"

text \<open>A Go \<^verbatim>\<open>error\<close>, by its message; \<^verbatim>\<open>nil\<close> is \<open>None\<close> of \<open>error option\<close>.\<close>

datatype error = errors_New string

text \<open>
  The payloads. The fields of a request are given in the order of the struct:
  \<^verbatim>\<open>GetRequest{Level, Key}\<close>, \<^verbatim>\<open>PutRequest{Level, Key, Value}\<close>,
  \<^verbatim>\<open>DeleteRequest{Level, Key}\<close>, \<^verbatim>\<open>GetResponse{Key, Value}\<close>.
\<close>

datatype GetRequest = GetRequest string string

datatype GetResponse = GetResponse (Key: string) (Value: string)

datatype PutRequest = PutRequest string string string

datatype DeleteRequest = DeleteRequest string string

record NodeStat =
  Address :: string
  Status :: string
  KeyCount :: "64 word"

datatype request =
  GetReq GetRequest | PutReq PutRequest | DeleteReq DeleteRequest | StateReq

text \<open>
  \<^verbatim>\<open>*rpc.Client\<close> belongs to the standard library. A connection is modelled by what a
  \<^verbatim>\<open>Call\<close> on it gives back for each service method: an error, or the reply decoded
  into the response struct. The calls that go out are recorded, in order, on a wire.
\<close>

record rpc_Client =
  Call_Get :: "GetRequest \<Rightarrow> error + GetResponse"
  Call_Put :: "PutRequest \<Rightarrow> error option"
  Call_Delete :: "DeleteRequest \<Rightarrow> error option"
  Call_Stat :: "error + NodeStat list"

type_synonym wire = "(string \<times> request) list"

text \<open>
  \<^verbatim>\<open>client\<close> is \<open>None\<close> while the pointer is \<^verbatim>\<open>nil\<close>, that is before
  \<^verbatim>\<open>Connect\<close> has succeeded.
\<close>

record SwimringClient =
  address :: string
  port :: "64 word"
  client :: "rpc_Client option"
  readLevel :: string
  writeLevel :: string

definition NewSwimringClient :: "string \<Rightarrow> 64 word \<Rightarrow> SwimringClient" where
  "NewSwimringClient addr p =
     \<lparr>address = addr, port = p, client = None, readLevel = ALL_level, writeLevel = ALL_level\<rparr>"

definition SetReadLevel :: "SwimringClient \<Rightarrow> string \<Rightarrow> SwimringClient" where
  "SetReadLevel c level = c\<lparr>readLevel := level\<rparr>"

definition SetWriteLevel :: "SwimringClient \<Rightarrow> string \<Rightarrow> SwimringClient" where
  "SetWriteLevel c level = c\<lparr>writeLevel := level\<rparr>"

text \<open>
  The four operations. Each takes the client and the wire and returns what the Go method
  returns, together with the client and the wire after the call. None of the methods
  assigns to a field of the client.
\<close>

definition Get ::
  "SwimringClient \<Rightarrow> string \<Rightarrow> wire \<Rightarrow> (string \<times> error option) \<times> SwimringClient \<times> wire" where
  "Get c key w =
     (case client c of
        None \<Rightarrow> (([], Some (errors_New ''not connected'')), c, w)
      | Some conn \<Rightarrow>
          (let req = GetRequest (readLevel c) key
           in case Call_Get conn req of
                Inl err \<Rightarrow> (([], Some err), c, w @ [(GetOp, GetReq req)])
              | Inr resp \<Rightarrow> ((Value resp, None), c, w @ [(GetOp, GetReq req)])))"

definition Put ::
  "SwimringClient \<Rightarrow> string \<Rightarrow> string \<Rightarrow> wire \<Rightarrow> error option \<times> SwimringClient \<times> wire" where
  "Put c key val w =
     (case client c of
        None \<Rightarrow> (Some (errors_New ''not connected''), c, w)
      | Some conn \<Rightarrow>
          (let req = PutRequest (writeLevel c) key val
           in case Call_Put conn req of
                Some err \<Rightarrow> (Some err, c, w @ [(PutOp, PutReq req)])
              | None \<Rightarrow> (None, c, w @ [(PutOp, PutReq req)])))"

definition Delete ::
  "SwimringClient \<Rightarrow> string \<Rightarrow> wire \<Rightarrow> error option \<times> SwimringClient \<times> wire" where
  "Delete c key w =
     (case client c of
        None \<Rightarrow> (Some (errors_New ''not connected''), c, w)
      | Some conn \<Rightarrow>
          (let req = DeleteRequest (writeLevel c) key
           in case Call_Delete conn req of
                Some err \<Rightarrow> (Some err, c, w @ [(DeleteOp, DeleteReq req)])
              | None \<Rightarrow> (None, c, w @ [(DeleteOp, DeleteReq req)])))"

definition Stat ::
  "SwimringClient \<Rightarrow> wire \<Rightarrow> (NodeStat list \<times> error option) \<times> SwimringClient \<times> wire" where
  "Stat c w =
     (case client c of
        None \<Rightarrow> (([], Some (errors_New ''not connected'')), c, w)
      | Some conn \<Rightarrow>
          (case Call_Stat conn of
             Inl err \<Rightarrow> (([], Some err), c, w @ [(StatOp, StateReq)])
           | Inr nodes \<Rightarrow> ((nodes, None), c, w @ [(StatOp, StateReq)])))"

section \<open>Theorems\<close>

subsection \<open>Evaluation of the tokenizer\<close>

text \<open>
  \<open>Split\<close> against \<^verbatim>\<open>strings.Split\<close>: there is one piece more than there are
  separators, no piece holds the separator, and the pieces in order are the string
  without its separators. The first case of the \<open>case\<close> in \<open>Split\<close> is never taken.
\<close>

lemma Split_not_Nil: "Split s sep \<noteq> []"
  by (induction s) (auto split: list.splits)

lemma Split_length: "length (Split s sep) = Suc (count_list s sep)"
  by (induction s) (auto simp: Split_not_Nil split: list.splits)

lemma Split_no_sep: "t \<in> set (Split s sep) \<Longrightarrow> sep \<notin> set t"
  by (induction s arbitrary: t) (auto split: list.splits if_splits)

lemma Split_concat: "concat (Split s sep) = filter (\<lambda>c. c \<noteq> sep) s"
  by (induction s) (auto split: list.splits)

lemma split_loop_Nil: "split_loop [] st = st"
  by (simp add: split_loop_def)

lemma split_loop_Cons: "split_loop (t # ts) st = split_loop ts (split_step t st)"
  by (simp add: split_loop_def)

lemma split_loop_append: "split_loop (ts @ us) st = split_loop us (split_loop ts st)"
  by (simp add: split_loop_def)

text \<open>
  C7. The line \<^verbatim>\<open>put "hello world" value\<close> is tokenized to \<open>put\<close>, \<open>hello world\<close>,
  \<open>value\<close>: the quotes are stripped and the quoted words joined by one space. The
  unquoted line \<^verbatim>\<open>get key1\<close> is tokenized to \<open>get\<close>, \<open>key1\<close>.
\<close>

theorem C7_tokenizer_examples:
  \<open>SafeSplit ''put "hello world" value'' = [''put'', ''hello world'', ''value'']
   \<and> SafeSplit ''get key1'' = [''get'', ''key1'']\<close>
  by (simp add: SafeSplit_def split_loop_Cons split_loop_Nil split_step_def split_init_def
      HasPrefix_def HasSuffix_def TrimPrefix_def TrimSuffix_def)

subsection \<open>The flags of Compare\<close>

text \<open>
  The loops only ever set a flag, so what they leave does not depend on the order of the
  visits: \<open>isNewer\<close> ends as \<open>newer_flag\<close> and \<open>isOlder\<close> as \<open>older_flag\<close>.
\<close>

lemma compare_other_step_pair:
  "compare_other_step vc (k, e) (nw, ol) =
     (case Entries vc k of
        Some t \<Rightarrow>
          if Counter t <s Counter e then (nw, True)
          else if Counter e <s Counter t then (True, ol)
          else (nw, ol)
      | None \<Rightarrow> (nw, True))"
  by (simp add: compare_other_step_def)

lemma compare_this_step_pair:
  "compare_this_step other k (nw, ol) =
     (if Entries other k = None then (True, ol) else (nw, ol))"
  by (simp add: compare_this_step_def)

lemma fold_compare_other_step:
  "fold (compare_other_step vc) ps (nw, ol) =
     (nw \<or> (\<exists>k e t. (k, e) \<in> set ps \<and> Entries vc k = Some t \<and> Counter e <s Counter t),
      ol \<or> (\<exists>k e. (k, e) \<in> set ps \<and>
              (Entries vc k = None \<or> (\<exists>t. Entries vc k = Some t \<and> Counter t <s Counter e))))"
proof (induction ps arbitrary: nw ol)
  case Nil
  show ?case by simp
next
  case (Cons p ps)
  obtain k e where p: "p = (k, e)" by (cases p)
  show ?case
  proof (cases "Entries vc k")
    case None
    then show ?thesis unfolding p
      by (auto simp: compare_other_step_pair Cons.IH)
  next
    case (Some t)
    then show ?thesis unfolding p
      by (auto simp: compare_other_step_pair Cons.IH word_sless_alt)
  qed
qed

lemma fold_compare_this_step:
  "fold (compare_this_step other) ks (nw, ol) =
     (nw \<or> (\<exists>k \<in> set ks. Entries other k = None), ol)"
  by (induction ks arbitrary: nw ol) (auto simp: compare_this_step_pair)

lemma range_entries_set:
  "range_entries m ps \<Longrightarrow> (k, e) \<in> set ps \<longleftrightarrow> m k = Some e"
  by (auto simp: range_entries_def)

lemma Compare_fold_flags:
  assumes "range_entries (Entries other) ps" and "range_keys (Entries vc) ks"
  shows "fold (compare_this_step other) ks (fold (compare_other_step vc) ps (False, False)) =
      (newer_flag vc other, older_flag vc other)"
proof -
  have mem: "\<And>k e. (k, e) \<in> set ps \<longleftrightarrow> Entries other k = Some e"
    using assms(1) by (rule range_entries_set)
  have keys: "set ks = dom (Entries vc)"
    using assms(2) by (simp add: range_keys_def)
  have n2: "(\<exists>k \<in> set ks. Entries other k = None) \<longleftrightarrow>
      (\<exists>n t. Entries vc n = Some t \<and> Entries other n = None)"
    unfolding keys by auto
  have o1: "(\<exists>k e. Entries other k = Some e \<and>
              (Entries vc k = None \<or> (\<exists>t. Entries vc k = Some t \<and> Counter t <s Counter e))) \<longleftrightarrow>
      older_flag vc other"
    unfolding older_flag_def by blast
  show ?thesis
    unfolding fold_compare_other_step fold_compare_this_step mem n2 o1 newer_flag_def
    by simp
qed

lemma Compare_flags:
  assumes "range_entries (Entries other) ps" and "range_keys (Entries vc) ks"
  shows "Compare vc other ps ks =
     (if newer_flag vc other \<and> older_flag vc other then ''CONCURRENT''
      else if newer_flag vc other then ''NEWER''
      else if older_flag vc other then ''OLDER''
      else ''EQUAL'')"
  unfolding Compare_def Let_def Compare_fold_flags [OF assms] by simp

lemma flags_mirror: "newer_flag a b = older_flag b a"
  unfolding newer_flag_def older_flag_def by blast

text \<open>A clock compared with itself is EQUAL.\<close>

lemma Compare_same:
  assumes "range_entries (Entries a) pa" and "range_keys (Entries a) ka"
  shows "Compare a a pa ka = ''EQUAL''"
proof -
  have "\<not> newer_flag a a"
    by (auto simp: newer_flag_def word_sless_alt)
  moreover have "\<not> older_flag a a"
    by (auto simp: older_flag_def word_sless_alt)
  ultimately show ?thesis
    using Compare_flags [OF assms] by simp
qed

subsection \<open>Compare is symmetric\<close>

text \<open>
  C3. For all clocks \<open>a\<close> and \<open>b\<close>, \<open>a.Compare(b)\<close> and \<open>b.Compare(a)\<close> are mirror
  images: one is NEWER exactly when the other is OLDER, and EQUAL and CONCURRENT are
  symmetric. The four orders are those in which the four loops of the two calls may visit
  the maps; the result holds for every choice of them.
\<close>

theorem C3_compare_mirror:
  assumes "range_entries (Entries a) pa" and "range_keys (Entries a) ka"
    and "range_entries (Entries b) pb" and "range_keys (Entries b) kb"
  shows "(Compare a b pb ka = ''NEWER'' \<longleftrightarrow> Compare b a pa kb = ''OLDER'')
       \<and> (Compare a b pb ka = ''OLDER'' \<longleftrightarrow> Compare b a pa kb = ''NEWER'')
       \<and> (Compare a b pb ka = ''EQUAL'' \<longleftrightarrow> Compare b a pa kb = ''EQUAL'')
       \<and> (Compare a b pb ka = ''CONCURRENT'' \<longleftrightarrow> Compare b a pa kb = ''CONCURRENT'')"
proof -
  have ab: "Compare a b pb ka =
     (if newer_flag a b \<and> older_flag a b then ''CONCURRENT''
      else if newer_flag a b then ''NEWER''
      else if older_flag a b then ''OLDER''
      else ''EQUAL'')"
    using assms(3) assms(2) by (rule Compare_flags)
  have ba: "Compare b a pa kb =
     (if older_flag a b \<and> newer_flag a b then ''CONCURRENT''
      else if older_flag a b then ''NEWER''
      else if newer_flag a b then ''OLDER''
      else ''EQUAL'')"
    using Compare_flags [OF assms(1) assms(4)]
    by (simp add: flags_mirror [of a b] flags_mirror [of b a, symmetric])
  show ?thesis
    unfolding ab ba by simp
qed

theorem C3_compare_mirror_witness:
  "Compare (Update NewVectorClock ''n1'' 5) NewVectorClock [] [''n1''] = ''NEWER''
   \<and> Compare NewVectorClock (Update NewVectorClock ''n1'' 5)
        [(''n1'', \<lparr>NodeID = ''n1'', Counter = 1, Updated = 5\<rparr>)] [] = ''OLDER''"
proof -
  have h1: "range_entries (Entries (Update NewVectorClock ''n1'' 5))
      [(''n1'', \<lparr>NodeID = ''n1'', Counter = 1, Updated = 5\<rparr>)]"
    by (simp add: range_entries_def Update_def NewVectorClock_def)
  have h2: "range_keys (Entries (Update NewVectorClock ''n1'' 5)) [''n1'']"
    by (simp add: range_keys_def Update_def NewVectorClock_def)
  have h3: "range_entries (Entries NewVectorClock) []"
    by (simp add: range_entries_def NewVectorClock_def)
  have h4: "range_keys (Entries NewVectorClock) []"
    by (simp add: range_keys_def NewVectorClock_def)
  have new: "Compare (Update NewVectorClock ''n1'' 5) NewVectorClock [] [''n1''] = ''NEWER''"
    by (simp add: Compare_def compare_this_step_def NewVectorClock_def)
  from C3_compare_mirror [OF h1 h2 h3 h4] new show ?thesis
    by simp
qed

subsection \<open>The client before it is connected\<close>

text \<open>
  C8. On a client whose connection is absent, each of \<open>Get\<close>, \<open>Put\<close>, \<open>Delete\<close>
  and \<open>Stat\<close> returns the error \<open>not connected\<close> at once: nothing is put on the
  wire and the client is as it was, so that a later call finds the state it would have
  found without the failed one.
\<close>

theorem C8_not_connected:
  assumes "client c = None"
  shows "Get c key w = (([], Some (errors_New ''not connected'')), c, w)
       \<and> Put c key val w = (Some (errors_New ''not connected''), c, w)
       \<and> Delete c key w = (Some (errors_New ''not connected''), c, w)
       \<and> Stat c w = (([], Some (errors_New ''not connected'')), c, w)"
  using assms by (simp add: Get_def Put_def Delete_def Stat_def)

theorem C8_not_connected_witness:
  "client (NewSwimringClient ''127.0.0.1'' 7000) = None
   \<and> Get (NewSwimringClient ''127.0.0.1'' 7000) ''k'' [] =
       (([], Some (errors_New ''not connected'')), NewSwimringClient ''127.0.0.1'' 7000, [])
   \<and> Put (NewSwimringClient ''127.0.0.1'' 7000) ''k'' ''v'' [] =
       (Some (errors_New ''not connected''), NewSwimringClient ''127.0.0.1'' 7000, [])
   \<and> Delete (NewSwimringClient ''127.0.0.1'' 7000) ''k'' [] =
       (Some (errors_New ''not connected''), NewSwimringClient ''127.0.0.1'' 7000, [])
   \<and> Stat (NewSwimringClient ''127.0.0.1'' 7000) [] =
       (([], Some (errors_New ''not connected'')), NewSwimringClient ''127.0.0.1'' 7000, [])"
proof -
  have h: "client (NewSwimringClient ''127.0.0.1'' 7000) = None"
    by (simp add: NewSwimringClient_def)
  show ?thesis
    using h C8_not_connected [OF h, of "''k''" "[]" "''v''"] by simp
qed

subsection \<open>The two consistency levels of the client\<close>

text \<open>
  C9. A new client reads and writes at level ALL. \<open>SetReadLevel\<close> changes the read
  level and nothing else, \<open>SetWriteLevel\<close> the write level and nothing else: the
  other level, the address, the port and the connection stay as they were.
\<close>

theorem C9_levels:
  "readLevel (NewSwimringClient addr p) = ''ALL''
   \<and> writeLevel (NewSwimringClient addr p) = ''ALL''
   \<and> SetReadLevel c level = c\<lparr>readLevel := level\<rparr>
   \<and> readLevel (SetReadLevel c level) = level
   \<and> writeLevel (SetReadLevel c level) = writeLevel c
   \<and> address (SetReadLevel c level) = address c
   \<and> port (SetReadLevel c level) = port c
   \<and> client (SetReadLevel c level) = client c
   \<and> SetWriteLevel c level = c\<lparr>writeLevel := level\<rparr>
   \<and> writeLevel (SetWriteLevel c level) = level
   \<and> readLevel (SetWriteLevel c level) = readLevel c
   \<and> address (SetWriteLevel c level) = address c
   \<and> port (SetWriteLevel c level) = port c
   \<and> client (SetWriteLevel c level) = client c"
  by (simp add: NewSwimringClient_def SetReadLevel_def SetWriteLevel_def ALL_level_def)

subsection \<open>Compare against the orders of the specification\<close>

text \<open>
  The specification's NEWER speaks of every node; a node that neither clock holds counts
  0 on both sides, so the nodes of the two clocks are enough.
\<close>

lemma spec_NEWER_all_nodes:
  "spec_NEWER a b \<longleftrightarrow>
     (\<forall>n. counter_of b n \<le> counter_of a n) \<and> (\<exists>n. counter_of b n < counter_of a n)"
proof -
  have out: "\<And>n. n \<notin> nodes_of a b \<Longrightarrow> counter_of a n = 0 \<and> counter_of b n = 0"
    by (auto simp: nodes_of_def counter_of_def split: option.splits)
  show ?thesis
    unfolding spec_NEWER_def
    by (metis out order_refl less_irrefl)
qed

text \<open>
  The flags in terms of the counters, for two clocks in which every entry that the other
  clock lacks has a positive counter.
\<close>

lemma newer_flag_counters:
  assumes pa: "\<forall>n e. Entries a n = Some e \<and> Entries b n = None \<longrightarrow> 0 < sint (Counter e)"
    and pb: "\<forall>n e. Entries b n = Some e \<and> Entries a n = None \<longrightarrow> 0 < sint (Counter e)"
  shows "newer_flag a b \<longleftrightarrow> (\<exists>n \<in> nodes_of a b. counter_of b n < counter_of a n)"
proof
  assume "newer_flag a b"
  then consider (both) n e t where "Entries b n = Some e" "Entries a n = Some t" "Counter e <s Counter t"
    | (lone) n t where "Entries a n = Some t" "Entries b n = None"
    unfolding newer_flag_def by blast
  then show "\<exists>n \<in> nodes_of a b. counter_of b n < counter_of a n"
  proof cases
    case both
    then have "n \<in> nodes_of a b" "counter_of b n < counter_of a n"
      by (auto simp: nodes_of_def counter_of_def word_sless_alt)
    then show ?thesis ..
  next
    case lone
    with pa have "0 < sint (Counter t)" by blast
    with lone have "n \<in> nodes_of a b" "counter_of b n < counter_of a n"
      by (auto simp: nodes_of_def counter_of_def)
    then show ?thesis ..
  qed
next
  assume "\<exists>n \<in> nodes_of a b. counter_of b n < counter_of a n"
  then obtain n where n: "n \<in> nodes_of a b" "counter_of b n < counter_of a n" ..
  show "newer_flag a b"
  proof (cases "Entries a n")
    case None
    with n(1) obtain e where e: "Entries b n = Some e"
      by (auto simp: nodes_of_def)
    with pb None have "0 < sint (Counter e)" by blast
    with n(2) None e show ?thesis by (simp add: counter_of_def)
  next
    case (Some t)
    show ?thesis
    proof (cases "Entries b n")
      case None
      with Some show ?thesis unfolding newer_flag_def by blast
    next
      case (Some e)
      with n(2) \<open>Entries a n = Some t\<close> have "Counter e <s Counter t"
        by (simp add: counter_of_def word_sless_alt)
      with Some \<open>Entries a n = Some t\<close> show ?thesis unfolding newer_flag_def by blast
    qed
  qed
qed

lemma older_flag_counters:
  assumes pa: "\<forall>n e. Entries a n = Some e \<and> Entries b n = None \<longrightarrow> 0 < sint (Counter e)"
    and pb: "\<forall>n e. Entries b n = Some e \<and> Entries a n = None \<longrightarrow> 0 < sint (Counter e)"
  shows "older_flag a b \<longleftrightarrow> (\<exists>n \<in> nodes_of a b. counter_of a n < counter_of b n)"
proof -
  have "older_flag a b \<longleftrightarrow> newer_flag b a"
    by (simp add: flags_mirror)
  also have "\<dots> \<longleftrightarrow> (\<exists>n \<in> nodes_of b a. counter_of a n < counter_of b n)"
    using pb pa by (rule newer_flag_counters)
  also have "nodes_of b a = nodes_of a b"
    by (auto simp: nodes_of_def)
  finally show ?thesis .
qed

text \<open>
  C1 as the specification states it fails on the code. \<open>Compare\<close> takes an entry that
  the other clock lacks for a strictly greater one, whatever its counter, while the
  specification reads the missing entry as counter 0. The empty clock against a clock
  that holds node \<open>n1\<close> with counter 0 is OLDER for the code and EQUAL (and not OLDER)
  for the specification.
\<close>

theorem C1_compare_counterexample:
  "range_entries (Entries \<lparr>Entries = [''n1'' \<mapsto> \<lparr>NodeID = ''n1'', Counter = 0, Updated = 0\<rparr>]\<rparr>)
     [(''n1'', \<lparr>NodeID = ''n1'', Counter = 0, Updated = 0\<rparr>)]
   \<and> range_keys (Entries NewVectorClock) []
   \<and> Compare NewVectorClock \<lparr>Entries = [''n1'' \<mapsto> \<lparr>NodeID = ''n1'', Counter = 0, Updated = 0\<rparr>]\<rparr>
        [(''n1'', \<lparr>NodeID = ''n1'', Counter = 0, Updated = 0\<rparr>)] [] = ''OLDER''
   \<and> spec_EQUAL NewVectorClock \<lparr>Entries = [''n1'' \<mapsto> \<lparr>NodeID = ''n1'', Counter = 0, Updated = 0\<rparr>]\<rparr>
   \<and> \<not> spec_OLDER NewVectorClock \<lparr>Entries = [''n1'' \<mapsto> \<lparr>NodeID = ''n1'', Counter = 0, Updated = 0\<rparr>]\<rparr>"
  by (simp add: range_entries_def range_keys_def NewVectorClock_def Compare_def
      compare_other_step_def spec_EQUAL_def spec_OLDER_def spec_NEWER_def nodes_of_def
      counter_of_def)

text \<open>
  C1, amended. For every pair of clocks in which each entry whose node the other clock
  lacks has a counter of at least 1 (as every entry that \<open>Update\<close> creates has),
  \<open>Compare\<close> classifies the pair exactly as the specification's orders do, with a
  missing node counting as 0: EQUAL iff all counters match, NEWER iff none is smaller and
  one is greater, OLDER symmetrically, CONCURRENT iff the clocks differ and neither strict
  order holds. This holds for every order in which the loops visit the maps.
\<close>

theorem C1_compare_classifies:
  assumes "range_entries (Entries b) pb" and "range_keys (Entries a) ka"
    and "\<forall>n e. Entries a n = Some e \<and> Entries b n = None \<longrightarrow> 0 < sint (Counter e)"
    and "\<forall>n e. Entries b n = Some e \<and> Entries a n = None \<longrightarrow> 0 < sint (Counter e)"
  shows "(Compare a b pb ka = ''EQUAL'' \<longleftrightarrow> spec_EQUAL a b)
       \<and> (Compare a b pb ka = ''NEWER'' \<longleftrightarrow> spec_NEWER a b)
       \<and> (Compare a b pb ka = ''OLDER'' \<longleftrightarrow> spec_OLDER a b)
       \<and> (Compare a b pb ka = ''CONCURRENT'' \<longleftrightarrow> spec_CONCURRENT a b)"
proof -
  define gt where "gt = (\<exists>n \<in> nodes_of a b. counter_of b n < counter_of a n)"
  define lt where "lt = (\<exists>n \<in> nodes_of a b. counter_of a n < counter_of b n)"
  have nw: "newer_flag a b = gt"
    unfolding gt_def using assms(3,4) by (rule newer_flag_counters)
  have ol: "older_flag a b = lt"
    unfolding lt_def using assms(3,4) by (rule older_flag_counters)
  have cmp: "Compare a b pb ka =
     (if gt \<and> lt then ''CONCURRENT'' else if gt then ''NEWER''
      else if lt then ''OLDER'' else ''EQUAL'')"
    using Compare_flags [OF assms(1,2)] by (simp add: nw ol)
  have nodes: "nodes_of b a = nodes_of a b"
    by (auto simp: nodes_of_def)
  have eq: "spec_EQUAL a b \<longleftrightarrow> \<not> gt \<and> \<not> lt"
    unfolding spec_EQUAL_def gt_def lt_def by (auto simp: not_less) force
  have newer: "spec_NEWER a b \<longleftrightarrow> gt \<and> \<not> lt"
    unfolding spec_NEWER_def gt_def lt_def by (auto simp: not_less)
  have older: "spec_OLDER a b \<longleftrightarrow> lt \<and> \<not> gt"
    unfolding spec_OLDER_def spec_NEWER_def nodes gt_def lt_def by (auto simp: not_less)
  have conc: "spec_CONCURRENT a b \<longleftrightarrow> gt \<and> lt"
    unfolding spec_CONCURRENT_def eq newer older by blast
  show ?thesis
    unfolding cmp eq newer older conc by simp
qed

theorem C1_compare_classifies_witness:
  "Compare (Update NewVectorClock ''n1'' 5) NewVectorClock [] [''n1''] = ''NEWER''
   \<and> spec_NEWER (Update NewVectorClock ''n1'' 5) NewVectorClock"
proof -
  have h1: "range_entries (Entries NewVectorClock) []"
    by (simp add: range_entries_def NewVectorClock_def)
  have h2: "range_keys (Entries (Update NewVectorClock ''n1'' 5)) [''n1'']"
    by (simp add: range_keys_def Update_def NewVectorClock_def)
  have h3: "\<forall>n e. Entries (Update NewVectorClock ''n1'' 5) n = Some e \<and>
      Entries NewVectorClock n = None \<longrightarrow> 0 < sint (Counter e)"
    by (auto simp: Update_def NewVectorClock_def split: if_splits)
  have h4: "\<forall>n e. Entries NewVectorClock n = Some e \<and>
      Entries (Update NewVectorClock ''n1'' 5) n = None \<longrightarrow> 0 < sint (Counter e)"
    by (simp add: NewVectorClock_def)
  have new: "Compare (Update NewVectorClock ''n1'' 5) NewVectorClock [] [''n1''] = ''NEWER''"
    by (simp add: Compare_def compare_this_step_def NewVectorClock_def)
  from C1_compare_classifies [OF h1 h2 h3 h4] new show ?thesis
    by simp
qed

subsection \<open>Update twice on one node\<close>

text \<open>Incrementing a counter below the largest 64-bit value does not wrap.\<close>

lemma sint_Counter_succ:
  fixes c :: "64 word"
  assumes "sint c < 2 ^ 63 - 1"
  shows "sint (c + 1) = sint c + 1"
proof -
  have lo: "- (2 ^ 63) \<le> sint c"
    using sint_ge [of c] by simp
  have "sint (c + 1) = signed_take_bit 63 (sint c + 1)"
    by (simp add: sint_word_ariths)
  also have "\<dots> = sint c + 1"
    using lo assms by (intro signed_take_bit_int_eq_self) simp_all
  finally show ?thesis .
qed

lemma counter_of_Update_same:
  assumes "counter_of vc n < 2 ^ 63 - 1"
  shows "counter_of (Update vc n now) n = counter_of vc n + 1"
proof (cases "Entries vc n")
  case None
  then show ?thesis by (simp add: counter_of_def Update_def)
next
  case (Some e)
  with assms have "sint (Counter e) < 2 ^ 63 - 1"
    by (simp add: counter_of_def)
  then have "sint (Counter e + 1) = sint (Counter e) + 1"
    by (rule sint_Counter_succ)
  with Some show ?thesis by (simp add: counter_of_def Update_def)
qed

lemma Entries_Update_same: "Entries (Update vc n now) n \<noteq> None"
  by (simp add: Update_def split: option.splits)

lemma Entries_Update_other: "m \<noteq> n \<Longrightarrow> Entries (Update vc n now) m = Entries vc m"
  by (simp add: Update_def split: option.splits)

lemma counter_of_Update_other: "m \<noteq> n \<Longrightarrow> counter_of (Update vc n now) m = counter_of vc m"
  by (simp add: counter_of_def Entries_Update_other)

text \<open>
  C5 as the specification states it fails on the code: \<^verbatim>\<open>Counter++\<close> wraps. A clock
  whose entry for \<open>n1\<close> holds the largest \<^verbatim>\<open>int\<close>, 9223372036854775807, has after
  two calls of \<open>Update\<close> the counter -9223372036854775807, and the updated clock
  compares as OLDER than the original.
\<close>

theorem C5_update_twice_counterexample:
  "range_entries
     (Entries \<lparr>Entries = [''n1'' \<mapsto> \<lparr>NodeID = ''n1'', Counter = 0x7FFFFFFFFFFFFFFF, Updated = 0\<rparr>]\<rparr>)
     [(''n1'', \<lparr>NodeID = ''n1'', Counter = 0x7FFFFFFFFFFFFFFF, Updated = 0\<rparr>)]
   \<and> range_keys
     (Entries (Update (Update
        \<lparr>Entries = [''n1'' \<mapsto> \<lparr>NodeID = ''n1'', Counter = 0x7FFFFFFFFFFFFFFF, Updated = 0\<rparr>]\<rparr>
        ''n1'' 1) ''n1'' 2)) [''n1'']
   \<and> Compare
       (Update (Update
          \<lparr>Entries = [''n1'' \<mapsto> \<lparr>NodeID = ''n1'', Counter = 0x7FFFFFFFFFFFFFFF, Updated = 0\<rparr>]\<rparr>
          ''n1'' 1) ''n1'' 2)
       \<lparr>Entries = [''n1'' \<mapsto> \<lparr>NodeID = ''n1'', Counter = 0x7FFFFFFFFFFFFFFF, Updated = 0\<rparr>]\<rparr>
       [(''n1'', \<lparr>NodeID = ''n1'', Counter = 0x7FFFFFFFFFFFFFFF, Updated = 0\<rparr>)] [''n1'']
     = ''OLDER''"
  by (simp add: range_entries_def range_keys_def Update_def Compare_def
      compare_other_step_def compare_this_step_def word_sless_alt)

text \<open>
  C5, amended. For every clock \<open>a\<close> and node \<open>n\<close> whose counter in \<open>a\<close> (0 when
  absent) is below \<open>2^63 - 2\<close>, so that two increments do not wrap, the clock after
  two calls of \<open>Update\<close> for \<open>n\<close> compares as NEWER than \<open>a\<close>: the counter of
  \<open>n\<close> has grown by two and every other entry is unchanged.
\<close>

theorem C5_update_twice_newer:
  assumes "range_entries (Entries a) pa"
    and "range_keys (Entries (Update (Update a n t1) n t2)) ka"
    and "counter_of a n < 2 ^ 63 - 2"
  shows "Compare (Update (Update a n t1) n t2) a pa ka = ''NEWER''
       \<and> counter_of (Update (Update a n t1) n t2) n = counter_of a n + 2
       \<and> (\<forall>m. m \<noteq> n \<longrightarrow> Entries (Update (Update a n t1) n t2) m = Entries a m)"
proof -
  let ?b = "Update (Update a n t1) n t2"
  have c1: "counter_of (Update a n t1) n = counter_of a n + 1"
    using assms(3) by (intro counter_of_Update_same) simp
  have c2: "counter_of ?b n = counter_of a n + 2"
    using assms(3) c1 counter_of_Update_same [of "Update a n t1" n t2] by simp
  have other: "\<And>m. m \<noteq> n \<Longrightarrow> Entries ?b m = Entries a m"
    by (simp add: Entries_Update_other)
  obtain t where t: "Entries ?b n = Some t"
    using Entries_Update_same [of "Update a n t1" n t2] by blast
  have nw: "newer_flag ?b a"
  proof (cases "Entries a n")
    case None
    with t show ?thesis unfolding newer_flag_def by blast
  next
    case (Some e)
    with t c2 have "Counter e <s Counter t"
      by (simp add: counter_of_def word_sless_alt)
    with Some t show ?thesis unfolding newer_flag_def by blast
  qed
  have ol: "\<not> older_flag ?b a"
  proof
    assume "older_flag ?b a"
    then consider (both) m e u where "Entries a m = Some e" "Entries ?b m = Some u" "Counter u <s Counter e"
      | (lone) m e where "Entries a m = Some e" "Entries ?b m = None"
      unfolding older_flag_def by blast
    then show False
    proof cases
      case both
      show False
      proof (cases "m = n")
        case True
        with both t c2 show False
          by (simp add: counter_of_def word_sless_alt)
      next
        case False
        with both other [of m] show False
          by (simp add: word_sless_alt)
      qed
    next
      case lone
      show False
      proof (cases "m = n")
        case True
        with lone t show False by simp
      next
        case False
        with lone other [of m] show False by simp
      qed
    qed
  qed
  have "Compare ?b a pa ka = ''NEWER''"
    using Compare_flags [OF assms(1) assms(2)] nw ol by simp
  with c2 other show ?thesis by simp
qed

theorem C5_update_twice_newer_witness:
  "Compare (Update (Update NewVectorClock ''n1'' 5) ''n1'' 6) NewVectorClock [] [''n1''] = ''NEWER''
   \<and> counter_of (Update (Update NewVectorClock ''n1'' 5) ''n1'' 6) ''n1'' = 2"
proof -
  have h1: "range_entries (Entries NewVectorClock) []"
    by (simp add: range_entries_def NewVectorClock_def)
  have h2: "range_keys (Entries (Update (Update NewVectorClock ''n1'' 5) ''n1'' 6)) [''n1'']"
    by (simp add: range_keys_def Update_def NewVectorClock_def)
  have h3: "counter_of NewVectorClock ''n1'' < 2 ^ 63 - 2"
    by (simp add: counter_of_def NewVectorClock_def)
  have z: "counter_of NewVectorClock ''n1'' = 0"
    by (simp add: counter_of_def NewVectorClock_def)
  from C5_update_twice_newer [OF h1 h2 h3] z show ?thesis
    by simp
qed

subsection \<open>The effect of Update\<close>




subsection \<open>Updates on disjoint sets of nodes\<close>

text \<open>
  A sequence of calls leaves the entries of the nodes it does not name as they were,
  makes an entry for each node it names and, as long as no counter wraps, adds to the
  counter of a node the number of calls that name it.
\<close>

lemma Updates_frame:
  "n \<notin> fst ` set us \<Longrightarrow> Entries (Updates c us) n = Entries c n"
proof (induction us arbitrary: c)
  case Nil
  show ?case by simp
next
  case (Cons u us)
  obtain m t where u: "u = (m, t)" by (cases u)
  from Cons.prems have "n \<noteq> m" "n \<notin> fst ` set us"
    by (auto simp: u)
  then show ?case
    by (simp add: u Cons.IH Entries_Update_other)
qed

lemma Updates_present:
  "n \<in> fst ` set us \<Longrightarrow> Entries (Updates c us) n \<noteq> None"
proof (induction us arbitrary: c)
  case Nil
  then show ?case by simp
next
  case (Cons u us)
  obtain m t where u: "u = (m, t)" by (cases u)
  show ?case
  proof (cases "n \<in> fst ` set us")
    case True
    then show ?thesis by (simp add: u Cons.IH)
  next
    case False
    with Cons.prems have "n = m" by (auto simp: u)
    with False show ?thesis
      by (simp add: u Updates_frame Entries_Update_same)
  qed
qed

lemma Updates_counter:
  assumes "\<forall>n \<in> fst ` set us. counter_of c n + int (count_list (map fst us) n) < 2 ^ 63"
  shows "counter_of (Updates c us) n = counter_of c n + int (count_list (map fst us) n)"
  using assms
proof (induction us arbitrary: c)
  case Nil
  show ?case by simp
next
  case (Cons u us)
  obtain m t where u: "u = (m, t)" by (cases u)
  from Cons.prems have m: "counter_of c m + int (count_list (map fst us) m) + 1 < 2 ^ 63"
    by (simp add: u)
  have "0 \<le> int (count_list (map fst us) m)" by simp
  with m have "counter_of c m < 2 ^ 63 - 1" by linarith
  then have cm: "counter_of (Update c m t) m = counter_of c m + 1"
    by (rule counter_of_Update_same)
  have step: "\<And>k. counter_of (Update c m t) k = counter_of c k + (if k = m then 1 else 0)"
    using cm by (simp add: counter_of_Update_other)
  have "\<forall>k \<in> fst ` set us.
      counter_of (Update c m t) k + int (count_list (map fst us) k) < 2 ^ 63"
  proof
    fix k assume k: "k \<in> fst ` set us"
    then have "k \<in> fst ` set (u # us)" by simp
    with Cons.prems have p: "counter_of c k + int (count_list (map fst (u # us)) k) < 2 ^ 63"
      by (rule bspec)
    show "counter_of (Update c m t) k + int (count_list (map fst us) k) < 2 ^ 63"
    proof (cases "k = m")
      case True
      with p show ?thesis by (simp add: step u)
    next
      case False
      with p show ?thesis by (simp add: step u)
    qed
  qed
  then have "counter_of (Updates (Update c m t) us) n =
      counter_of (Update c m t) n + int (count_list (map fst us) n)"
    by (rule Cons.IH)
  then show ?case
    by (simp add: u step)
qed

lemma Updates_newer_flag:
  assumes ne: "us \<noteq> []"
    and bound: "\<forall>n \<in> fst ` set us. counter_of c n + int (count_list (map fst us) n) < 2 ^ 63"
    and same: "\<forall>n \<in> fst ` set us. Entries b n = Entries c n"
  shows "newer_flag (Updates c us) b"
proof -
  from ne obtain n where n: "n \<in> fst ` set us"
    by (cases us) auto
  then have "n \<in> set (map fst us)" by simp
  then have "count_list (map fst us) n \<noteq> 0"
    by (simp only: count_list_0_iff not_not)
  then have pos: "0 < count_list (map fst us) n"
    by simp
  obtain t where t: "Entries (Updates c us) n = Some t"
    using Updates_present [OF n, of c] by blast
  have cnt: "counter_of (Updates c us) n = counter_of c n + int (count_list (map fst us) n)"
    using bound by (rule Updates_counter)
  from same n have bn: "Entries b n = Entries c n" by blast
  show ?thesis
  proof (cases "Entries c n")
    case None
    with bn t show ?thesis unfolding newer_flag_def by auto
  next
    case (Some e)
    with cnt t pos have "Counter e <s Counter t"
      by (simp add: counter_of_def word_sless_alt)
    with Some bn t show ?thesis unfolding newer_flag_def by auto
  qed
qed

text \<open>
  C4 as the specification states it fails on the code, again where a counter wraps. From
  the ancestor that holds \<open>n1\<close> with the largest \<^verbatim>\<open>int\<close>, one copy is updated
  on \<open>n1\<close> (its counter wraps to the smallest \<^verbatim>\<open>int\<close>) and the other on
  \<open>n2\<close>: the first compares as OLDER than the second, not CONCURRENT.
\<close>

theorem C4_disjoint_updates_counterexample:
  "range_entries
     (Entries (Updates
        \<lparr>Entries = [''n1'' \<mapsto> \<lparr>NodeID = ''n1'', Counter = 0x7FFFFFFFFFFFFFFF, Updated = 0\<rparr>]\<rparr>
        [(''n2'', 2)]))
     [(''n1'', \<lparr>NodeID = ''n1'', Counter = 0x7FFFFFFFFFFFFFFF, Updated = 0\<rparr>),
      (''n2'', \<lparr>NodeID = ''n2'', Counter = 1, Updated = 2\<rparr>)]
   \<and> range_keys
     (Entries (Updates
        \<lparr>Entries = [''n1'' \<mapsto> \<lparr>NodeID = ''n1'', Counter = 0x7FFFFFFFFFFFFFFF, Updated = 0\<rparr>]\<rparr>
        [(''n1'', 1)]))
     [''n1'']
   \<and> Compare
       (Updates
          \<lparr>Entries = [''n1'' \<mapsto> \<lparr>NodeID = ''n1'', Counter = 0x7FFFFFFFFFFFFFFF, Updated = 0\<rparr>]\<rparr>
          [(''n1'', 1)])
       (Updates
          \<lparr>Entries = [''n1'' \<mapsto> \<lparr>NodeID = ''n1'', Counter = 0x7FFFFFFFFFFFFFFF, Updated = 0\<rparr>]\<rparr>
          [(''n2'', 2)])
       [(''n1'', \<lparr>NodeID = ''n1'', Counter = 0x7FFFFFFFFFFFFFFF, Updated = 0\<rparr>),
        (''n2'', \<lparr>NodeID = ''n2'', Counter = 1, Updated = 2\<rparr>)]
       [''n1'']
     = ''OLDER''"
  by (simp add: range_entries_def range_keys_def Update_def Compare_def
      compare_other_step_def compare_this_step_def word_sless_alt fun_upd_twist)

text \<open>
  C4, amended. Let \<open>c\<close> be a common ancestor, \<open>us1\<close> and \<open>us2\<close> two non-empty
  sequences of \<open>Update\<close> calls that name disjoint sets of nodes, and let no counter
  wrap: for each node named, its counter in \<open>c\<close> (0 when absent) plus the number of
  calls that name it is at most \<open>2^63 - 1\<close>. Then the copy of \<open>c\<close> that received
  \<open>us1\<close> and the copy that received \<open>us2\<close> compare as CONCURRENT, for every order
  in which the loops visit the maps.
\<close>

theorem C4_disjoint_updates_concurrent:
  assumes "us1 \<noteq> []" and "us2 \<noteq> []"
    and "fst ` set us1 \<inter> fst ` set us2 = {}"
    and "\<forall>n \<in> fst ` set us1. counter_of c n + int (count_list (map fst us1) n) < 2 ^ 63"
    and "\<forall>n \<in> fst ` set us2. counter_of c n + int (count_list (map fst us2) n) < 2 ^ 63"
    and "range_entries (Entries (Updates c us2)) pb"
    and "range_keys (Entries (Updates c us1)) ka"
  shows "Compare (Updates c us1) (Updates c us2) pb ka = ''CONCURRENT''"
proof -
  have s1: "\<forall>n \<in> fst ` set us1. Entries (Updates c us2) n = Entries c n"
    using assms(3) by (auto intro!: Updates_frame)
  have s2: "\<forall>n \<in> fst ` set us2. Entries (Updates c us1) n = Entries c n"
    using assms(3) by (auto intro!: Updates_frame)
  have nw: "newer_flag (Updates c us1) (Updates c us2)"
    using assms(1) assms(4) s1 by (rule Updates_newer_flag)
  have "newer_flag (Updates c us2) (Updates c us1)"
    using assms(2) assms(5) s2 by (rule Updates_newer_flag)
  then have ol: "older_flag (Updates c us1) (Updates c us2)"
    by (simp add: flags_mirror)
  show ?thesis
    using Compare_flags [OF assms(6) assms(7)] nw ol by simp
qed

theorem C4_disjoint_updates_witness:
  "Compare (Updates NewVectorClock [(''n1'', 5)]) (Updates NewVectorClock [(''n2'', 6)])
     [(''n2'', \<lparr>NodeID = ''n2'', Counter = 1, Updated = 6\<rparr>)] [''n1''] = ''CONCURRENT''"
proof -
  have h1: "[(''n1'', 5::int)] \<noteq> []" by simp
  have h2: "[(''n2'', 6::int)] \<noteq> []" by simp
  have h3: "fst ` set [(''n1'', 5::int)] \<inter> fst ` set [(''n2'', 6::int)] = {}" by simp
  have h4: "\<forall>n \<in> fst ` set [(''n1'', 5::int)].
      counter_of NewVectorClock n + int (count_list (map fst [(''n1'', 5::int)]) n) < 2 ^ 63"
    by (simp add: counter_of_def NewVectorClock_def)
  have h5: "\<forall>n \<in> fst ` set [(''n2'', 6::int)].
      counter_of NewVectorClock n + int (count_list (map fst [(''n2'', 6::int)]) n) < 2 ^ 63"
    by (simp add: counter_of_def NewVectorClock_def)
  have h6: "range_entries (Entries (Updates NewVectorClock [(''n2'', 6)]))
      [(''n2'', \<lparr>NodeID = ''n2'', Counter = 1, Updated = 6\<rparr>)]"
    by (simp add: range_entries_def Update_def NewVectorClock_def)
  have h7: "range_keys (Entries (Updates NewVectorClock [(''n1'', 5)])) [''n1'']"
    by (simp add: range_keys_def Update_def NewVectorClock_def)
  from C4_disjoint_updates_concurrent [OF h1 h2 h3 h4 h5 h6 h7] show ?thesis .
qed

subsection \<open>Quotes that are not closed\<close>

text \<open>
  A token that begins with a quote character and is met outside a quoted span opens one:
  the character is remembered in \<open>inquote\<close> and the rest of the token starts
  \<open>block\<close>. Inside a span, the tokens that do not end with the remembered character
  are added to \<open>block\<close>, each followed by a space, and \<open>result\<close> does not change.
\<close>

lemma split_step_open:
  assumes "inquote st = []" and "q = CHR 0x27 \<or> q = CHR 0x22"
  shows "split_step (q # w) st = st\<lparr>inquote := [q], block := w @ '' ''\<rparr>"
  using assms by (auto simp: split_step_def HasPrefix_def TrimPrefix_def)

lemma split_loop_inside:
  assumes "inquote st \<noteq> []" and "\<forall>u \<in> set us. \<not> HasSuffix u (inquote st)"
  shows "split_loop us st = st\<lparr>block := block st @ concat (map (\<lambda>u. u @ '' '') us)\<rparr>"
  using assms
proof (induction us arbitrary: st)
  case Nil
  show ?case by (simp add: split_loop_Nil)
next
  case (Cons u us)
  from Cons.prems have step: "split_step u st = st\<lparr>block := block st @ u @ '' ''\<rparr>"
    by (simp add: split_step_def)
  have "split_loop us (split_step u st) =
      (split_step u st)\<lparr>block := block (split_step u st) @ concat (map (\<lambda>u. u @ '' '') us)\<rparr>"
    using Cons.prems by (intro Cons.IH) (simp_all add: step)
  then show ?case
    by (simp add: split_loop_Cons step)
qed

lemma split_loop_unterminated:
  assumes "inquote (split_loop pre st0) = []" and "q = CHR 0x27 \<or> q = CHR 0x22"
    and "\<forall>u \<in> set post. \<not> HasSuffix u [q]"
  shows "split_loop (pre @ (q # w) # post) st0 =
     (split_loop pre st0)\<lparr>inquote := [q],
        block := w @ '' '' @ concat (map (\<lambda>u. u @ '' '') post)\<rparr>"
proof -
  let ?st = "split_loop pre st0"
  let ?st1 = "?st\<lparr>inquote := [q], block := w @ '' ''\<rparr>"
  have "split_loop (pre @ (q # w) # post) st0 = split_loop post (split_step (q # w) ?st)"
    by (simp add: split_loop_append split_loop_Cons)
  also have "split_step (q # w) ?st = ?st1"
    using assms(1,2) by (rule split_step_open)
  also have "split_loop post ?st1 =
      ?st1\<lparr>block := block ?st1 @ concat (map (\<lambda>u. u @ '' '') post)\<rparr>"
    using assms(3) by (intro split_loop_inside) simp_all
  finally show ?thesis by simp
qed

text \<open>
  C2 as the specification states it fails on the code. The text of a quote that is never
  closed is collected in the local \<open>block\<close>, and \<open>block\<close> is appended to the
  result only where a closing token is found; the function returns \<open>result\<close> without
  it. The line \<^verbatim>\<open>get "hi there\<close> gives the one token \<open>get\<close>, the text being left in
  \<open>block\<close>, and the line \<^verbatim>\<open>"hi there\<close> gives no token at all, so that there is no
  last segment that could hold the text.
\<close>

theorem C2_unterminated_quote_counterexample:
  \<open>SafeSplit ''get "hi there'' = [''get'']
   \<and> block (split_loop (Split ''get "hi there'' CHR '' '') split_init) = ''hi there ''
   \<and> SafeSplit ''"hi there'' = []\<close>
  by (simp add: SafeSplit_def split_loop_Cons split_loop_Nil split_step_def split_init_def
      HasPrefix_def HasSuffix_def TrimPrefix_def TrimSuffix_def)

text \<open>
  C2, amended. For every line with a token that begins with \<^verbatim>\<open>'\<close> or \<^verbatim>\<open>"\<close>, is met
  outside a quoted span and is followed by no token that ends with the same quote
  character, the tokenizer returns, without any error, exactly the tokens it had completed
  before that token. The text from the opening token to the end of the line is collected
  in \<open>block\<close>, which is not part of what is returned.
\<close>

theorem C2_unterminated_quote_dropped:
  assumes "Split s CHR '' '' = pre @ (q # w) # post"
    and "q = CHR 0x27 \<or> q = CHR 0x22"
    and "inquote (split_loop pre split_init) = []"
    and "\<forall>u \<in> set post. \<not> HasSuffix u [q]"
  shows "SafeSplit s = result (split_loop pre split_init)
       \<and> block (split_loop (Split s CHR '' '') split_init) =
           w @ '' '' @ concat (map (\<lambda>u. u @ '' '') post)
       \<and> inquote (split_loop (Split s CHR '' '') split_init) = [q]"
  using split_loop_unterminated [OF assms(3) assms(2) assms(4), of w]
  by (simp add: SafeSplit_def assms(1))

theorem C2_unterminated_quote_witness:
  \<open>SafeSplit ''put k "some long value'' = [''put'', ''k'']
   \<and> block (split_loop (Split ''put k "some long value'' CHR '' '') split_init)
       = ''some long value ''\<close>
proof -
  have h1: \<open>Split ''put k "some long value'' CHR '' '' =
      [''put'', ''k''] @ (CHR 0x22 # ''some'') # [''long'', ''value'']\<close>
    by simp
  have h2: "CHR 0x22 = CHR 0x27 \<or> CHR 0x22 = CHR 0x22"
    by simp
  have h3: "inquote (split_loop [''put'', ''k''] split_init) = []"
    by (simp add: split_loop_Cons split_loop_Nil split_step_def split_init_def HasPrefix_def)
  have h4: "\<forall>u \<in> set [''long'', ''value'']. \<not> HasSuffix u [CHR 0x22]"
    by (simp add: HasSuffix_def)
  have r: "result (split_loop [''put'', ''k''] split_init) = [''put'', ''k'']"
    by (simp add: split_loop_Cons split_loop_Nil split_step_def split_init_def HasPrefix_def)
  from C2_unterminated_quote_dropped [OF h1 h2 h3 h4] r show ?thesis
    by simp
qed

text \<open>
  C10 as stated fails on the code: whether a token that begins and ends with the same
  quote character opens a span depends on the state in which the loop meets it. In the
  line \<^verbatim>\<open>"a "b"\<close> the token \<^verbatim>\<open>"b"\<close> is met inside the span that \<^verbatim>\<open>"a\<close> opened;
  it closes that span, and its text is part of the one token returned, although no later
  token ends with the quote character.
\<close>

theorem C10_quoted_token_counterexample:
  \<open>Split ''"a "b"'' CHR '' '' = [''"a'', ''"b"'']
   \<and> split_loop [''"a''] split_init = \<lparr>result = [], inquote = ''"'', block = ''a ''\<rparr>
   \<and> split_loop [''"a'', ''"b"''] split_init = \<lparr>result = [''a "b''], inquote = [], block = []\<rparr>
   \<and> SafeSplit ''"a "b"'' = [''a "b'']\<close>
  by (simp add: SafeSplit_def split_loop_Cons split_loop_Nil split_step_def split_init_def
      HasPrefix_def HasSuffix_def TrimPrefix_def TrimSuffix_def)

text \<open>
  C10, amended. For every line with a token that begins and ends with the same quote
  character (so of length at least two) and is met outside a quoted span, the tokenizer
  treats the token as opening a span only: the quote character is remembered, the rest
  of the token with its final quote character starts \<open>block\<close>, and nothing is added
  to the result. If no later token ends with that quote character, the function returns
  exactly the tokens completed before it, so the quoted text is absent from the result.
\<close>

theorem C10_quoted_token_only_opens:
  assumes "Split s CHR '' '' = pre @ (q # mid @ [q]) # post"
    and "q = CHR 0x27 \<or> q = CHR 0x22"
    and "inquote (split_loop pre split_init) = []"
  shows "split_loop (pre @ [q # mid @ [q]]) split_init =
           (split_loop pre split_init)\<lparr>inquote := [q], block := mid @ [q] @ '' ''\<rparr>
       \<and> ((\<forall>u \<in> set post. \<not> HasSuffix u [q]) \<longrightarrow>
            SafeSplit s = result (split_loop pre split_init))"
proof -
  have "\<forall>u \<in> set []. \<not> HasSuffix u [q]" by simp
  from split_loop_unterminated [OF assms(3) assms(2) this, of "mid @ [q]"]
  have opens: "split_loop (pre @ [q # mid @ [q]]) split_init =
      (split_loop pre split_init)\<lparr>inquote := [q], block := mid @ [q] @ '' ''\<rparr>"
    by simp
  have "SafeSplit s = result (split_loop pre split_init)"
    if "\<forall>u \<in> set post. \<not> HasSuffix u [q]"
    using split_loop_unterminated [OF assms(3) assms(2) that, of "mid @ [q]"]
    by (simp add: SafeSplit_def assms(1))
  with opens show ?thesis by blast
qed

theorem C10_quoted_token_witness:
  \<open>split_loop [''get'', ''"hi"''] split_init =
     \<lparr>result = [''get''], inquote = ''"'', block = ''hi" ''\<rparr>
   \<and> SafeSplit ''get "hi"'' = [''get'']\<close>
proof -
  have h1: \<open>Split ''get "hi"'' CHR '' '' = [''get''] @ (CHR 0x22 # ''hi'' @ [CHR 0x22]) # []\<close>
    by simp
  have h2: "CHR 0x22 = CHR 0x27 \<or> CHR 0x22 = CHR 0x22"
    by simp
  have h3: "inquote (split_loop [''get''] split_init) = []"
    by (simp add: split_loop_Cons split_loop_Nil split_step_def split_init_def HasPrefix_def)
  have r: "split_loop [''get''] split_init = \<lparr>result = [''get''], inquote = [], block = []\<rparr>"
    by (simp add: split_loop_Cons split_loop_Nil split_step_def split_init_def HasPrefix_def)
  from C10_quoted_token_only_opens [OF h1 h2 h3] r show ?thesis
    by simp
qed

end
